theory Spec2Isabelle
  imports Complex_Main
begin

section \<open>The ledger store of money-mgmt\<close>

text \<open>
  The repository's store is the SQLite database opened by \<^verbatim>\<open>src/db.js\<close>: four tables
  created by one \<^verbatim>\<open>db.exec\<close>, with \<^verbatim>\<open>foreign_keys = ON\<close>. The module exports the
  connection, so every client writes through SQL statements that the engine checks
  against the declared constraints. The schema is embedded as data, and the engine's
  handling of a single-row INSERT (plain or OR IGNORE), UPDATE and DELETE as functions
  over a catalog of tables. \<^verbatim>\<open>scripts/link-accounts.js\<close> is the only client in the
  repository; its \<^verbatim>\<open>handleExchange\<close> is embedded at the end.
\<close>

subsection \<open>Values, type affinity and errors\<close>

text \<open>A value, one constructor per storage class of SQLite.\<close>

datatype sqlval = VNull | VInt int | VReal real | VText string | VBlob "nat list"

datatype error =
    NoSuchColumn string
  | DatatypeMismatch
  | DatabaseFull
  | NotNullFailed string
  | CheckFailed string
  | UniqueFailed string
  | ForeignKeyFailed

text \<open>
  The engine converts between numbers and text when it stores a value. These conversions
  are SQLite's, not the repository's, and work on floating point; they are parameters of
  the model: the text of a number, the number a text spells (if it spells one), and the
  floating point value of an integer.
\<close>

datatype num = NInt int | NReal real

record engine =
  num_text :: "num \<Rightarrow> string"
  text_num :: "string \<Rightarrow> num option"
  int_real :: "int \<Rightarrow> real"

datatype affinity = TextAff | IntegerAff | RealAff

text \<open>Rowids are signed 64-bit integers.\<close>

definition max_rowid :: int where
  "max_rowid = 9223372036854775807"

definition min_rowid :: int where
  "min_rowid = - 9223372036854775808"

text \<open>
  A floating point value becomes an integer when it is one and lies strictly between the
  smallest and the largest 64-bit integer.
\<close>

definition integer_affinity :: "real \<Rightarrow> sqlval" where
  "integer_affinity x =
     (if of_int \<lfloor>x\<rfloor> = x \<and> of_int min_rowid < x \<and> x < of_int max_rowid then VInt \<lfloor>x\<rfloor>
      else VReal x)"

definition numeric_affinity :: "engine \<Rightarrow> sqlval \<Rightarrow> sqlval" where
  "numeric_affinity e v =
     (case v of
        VReal x \<Rightarrow> integer_affinity x
      | VText s \<Rightarrow>
          (case text_num e s of
             None \<Rightarrow> v
           | Some (NInt n) \<Rightarrow> VInt n
           | Some (NReal x) \<Rightarrow> integer_affinity x)
      | _ \<Rightarrow> v)"

text \<open>
  What a column of the given affinity stores for a value: a TEXT column turns numbers
  into text, an INTEGER column turns text that spells a number and integral floating
  point values into integers, a REAL column turns integers and text that spells a number
  into floating point values. NULL and blobs are stored as they are.
\<close>

definition apply_affinity :: "engine \<Rightarrow> affinity \<Rightarrow> sqlval \<Rightarrow> sqlval" where
  "apply_affinity e a v =
     (case a of
        TextAff \<Rightarrow>
          (case v of
             VInt n \<Rightarrow> VText (num_text e (NInt n))
           | VReal x \<Rightarrow> VText (num_text e (NReal x))
           | _ \<Rightarrow> v)
      | IntegerAff \<Rightarrow> numeric_affinity e v
      | RealAff \<Rightarrow>
          (case v of
             VInt n \<Rightarrow> VReal (int_real e n)
           | VText s \<Rightarrow>
               (case text_num e s of
                  None \<Rightarrow> v
                | Some (NInt n) \<Rightarrow> VReal (int_real e n)
                | Some (NReal x) \<Rightarrow> VReal x)
           | _ \<Rightarrow> v))"

text \<open>A value given for the rowid must become a 64-bit integer.\<close>

definition to_rowid :: "engine \<Rightarrow> sqlval \<Rightarrow> error + int" where
  "to_rowid e v =
     (case numeric_affinity e v of
        VInt n \<Rightarrow> if min_rowid \<le> n \<and> n \<le> max_rowid then Inr n else Inl DatatypeMismatch
      | _ \<Rightarrow> Inl DatatypeMismatch)"

subsection \<open>The schema of \<^verbatim>\<open>db.exec\<close>\<close>

datatype tname = Accounts | Transactions | Held_funds | Transfer_log

datatype dflt = NoDefault | DefaultLit sqlval | DefaultNow

text \<open>
  A column other than \<^verbatim>\<open>id\<close>: its name (in lower case), the affinity of its declared
  type, NOT NULL, UNIQUE, DEFAULT, the list of a \<^verbatim>\<open>CHECK (c IN (...))\<close> and the table of a
  \<^verbatim>\<open>REFERENCES t(id)\<close>.
\<close>

record column =
  cname :: string
  aff :: affinity
  notnull :: bool
  uniq :: bool
  cdefault :: dflt
  chk :: "sqlval list option"
  refs :: "tname option"

definition col :: "string \<Rightarrow> affinity \<Rightarrow> column" where
  "col n a = \<lparr>cname = n, aff = a, notnull = False, uniq = False, cdefault = NoDefault,
              chk = None, refs = None\<rparr>"

definition held_statuses :: "sqlval list" where
  "held_statuses = [VText ''held'', VText ''transferred'', VText ''released'']"

definition transfer_statuses :: "sqlval list" where
  "transfer_statuses = [VText ''pending'', VText ''posted'', VText ''failed'', VText ''cancelled'']"

text \<open>
  Every table starts with \<^verbatim>\<open>id INTEGER PRIMARY KEY AUTOINCREMENT\<close>, which is the rowid
  and is kept apart from the other columns.
\<close>

fun schema :: "tname \<Rightarrow> column list" where
  "schema Accounts =
     [(col ''plaid_account_id'' TextAff)\<lparr>notnull := True, uniq := True\<rparr>,
      (col ''plaid_item_id'' TextAff)\<lparr>notnull := True\<rparr>,
      (col ''name'' TextAff)\<lparr>notnull := True\<rparr>,
      col ''official_name'' TextAff,
      (col ''type'' TextAff)\<lparr>notnull := True\<rparr>,
      col ''subtype'' TextAff,
      col ''mask'' TextAff,
      (col ''created_at'' TextAff)\<lparr>notnull := True, cdefault := DefaultNow\<rparr>]"
| "schema Transactions =
     [(col ''plaid_transaction_id'' TextAff)\<lparr>notnull := True, uniq := True\<rparr>,
      (col ''account_id'' IntegerAff)\<lparr>notnull := True, refs := Some Accounts\<rparr>,
      (col ''amount'' RealAff)\<lparr>notnull := True\<rparr>,
      (col ''date'' TextAff)\<lparr>notnull := True\<rparr>,
      (col ''name'' TextAff)\<lparr>notnull := True\<rparr>,
      col ''merchant_name'' TextAff,
      col ''category'' TextAff,
      (col ''pending'' IntegerAff)\<lparr>notnull := True, cdefault := DefaultLit (VInt 0)\<rparr>,
      (col ''created_at'' TextAff)\<lparr>notnull := True, cdefault := DefaultNow\<rparr>]"
| "schema Held_funds =
     [(col ''account_id'' IntegerAff)\<lparr>notnull := True, refs := Some Accounts\<rparr>,
      (col ''card_account_id'' IntegerAff)\<lparr>notnull := True, refs := Some Accounts\<rparr>,
      (col ''amount'' RealAff)\<lparr>notnull := True\<rparr>,
      (col ''status'' TextAff)\<lparr>notnull := True, cdefault := DefaultLit (VText ''held''),
                                chk := Some held_statuses\<rparr>,
      (col ''created_at'' TextAff)\<lparr>notnull := True, cdefault := DefaultNow\<rparr>,
      (col ''updated_at'' TextAff)\<lparr>notnull := True, cdefault := DefaultNow\<rparr>]"
| "schema Transfer_log =
     [(col ''held_fund_id'' IntegerAff)\<lparr>notnull := True, refs := Some Held_funds\<rparr>,
      (col ''from_account_id'' IntegerAff)\<lparr>notnull := True, refs := Some Accounts\<rparr>,
      (col ''to_account_id'' IntegerAff)\<lparr>notnull := True, refs := Some Accounts\<rparr>,
      (col ''amount'' RealAff)\<lparr>notnull := True\<rparr>,
      (col ''status'' TextAff)\<lparr>notnull := True, cdefault := DefaultLit (VText ''pending''),
                                chk := Some transfer_statuses\<rparr>,
      col ''plaid_transfer_id'' TextAff,
      (col ''initiated_at'' TextAff)\<lparr>notnull := True, cdefault := DefaultNow\<rparr>,
      col ''completed_at'' TextAff]"

definition all_tables :: "tname list" where
  "all_tables = [Accounts, Transactions, Held_funds, Transfer_log]"

text \<open>
  The catalog of a database file gives each table its columns. \<^verbatim>\<open>db.js\<close> creates a table
  only when the file does not have it yet, so the catalog is \<open>schema\<close> on a file that
  \<^verbatim>\<open>db.js\<close> created, and the engine below works on any catalog in which no table
  references itself.
\<close>

type_synonym catalog = "tname \<Rightarrow> column list"


subsection \<open>Column names\<close>

text \<open>
  Column names compare without regard to (ASCII) case, and \<^verbatim>\<open>rowid\<close>, \<^verbatim>\<open>_rowid_\<close> and
  \<^verbatim>\<open>oid\<close> name the rowid as \<^verbatim>\<open>id\<close> does.
\<close>

definition lower :: "char \<Rightarrow> char" where
  "lower c =
     (case map_of (zip ''ABCDEFGHIJKLMNOPQRSTUVWXYZ'' ''abcdefghijklmnopqrstuvwxyz'') c of
        Some l \<Rightarrow> l
      | None \<Rightarrow> c)"

definition resolve :: "catalog \<Rightarrow> tname \<Rightarrow> string \<Rightarrow> string option" where
  "resolve cat t name =
     (let n = map lower name
      in if n \<in> set (map cname (cat t)) then Some n
         else if n \<in> set [''id'', ''rowid'', ''_rowid_'', ''oid''] then Some ''id''
         else None)"

text \<open>Preparing a statement fails at the first name that is no column of the table.\<close>

definition unknown_column :: "catalog \<Rightarrow> tname \<Rightarrow> string list \<Rightarrow> string option" where
  "unknown_column cat t names = find (\<lambda>n. resolve cat t n = None) names"

text \<open>
  The values a statement gives, keyed by the columns its names stand for. Where a column
  is named more than once, an INSERT takes the first value (for the rowid the last), an
  UPDATE the last.
\<close>

definition bound :: "catalog \<Rightarrow> tname \<Rightarrow> (string \<times> sqlval) list \<Rightarrow> (string option \<times> sqlval) list" where
  "bound cat t cvs = map (\<lambda>(n, v). (resolve cat t n, v)) cvs"

definition first_value :: "catalog \<Rightarrow> tname \<Rightarrow> (string \<times> sqlval) list \<Rightarrow> string \<Rightarrow> sqlval option" where
  "first_value cat t cvs c = map_of (bound cat t cvs) (Some c)"

definition last_value :: "catalog \<Rightarrow> tname \<Rightarrow> (string \<times> sqlval) list \<Rightarrow> string \<Rightarrow> sqlval option" where
  "last_value cat t cvs c = map_of (rev (bound cat t cvs)) (Some c)"

subsection \<open>Rows, tables and the store\<close>

record row =
  rid :: int
  vals :: "(string \<times> sqlval) list"

text \<open>
  A table is its rows in insertion order and the AUTOINCREMENT counter that SQLite keeps in
  \<^verbatim>\<open>sqlite_sequence\<close>: the largest rowid an INSERT has given the table so far.
\<close>

record table =
  rows :: "row list"
  seq :: int

type_synonym store = "tname \<Rightarrow> table"

definition empty_store :: store where
  "empty_store = (\<lambda>_. \<lparr>rows = [], seq = 0\<rparr>)"

definition cell :: "row \<Rightarrow> string \<Rightarrow> sqlval" where
  "cell r c =
     (if c = ''id'' then VInt (rid r)
      else case map_of (vals r) c of Some v \<Rightarrow> v | None \<Rightarrow> VNull)"

definition rids :: "table \<Rightarrow> int list" where
  "rids tb = map rid (rows tb)"

subsection \<open>Rowids\<close>

text \<open>
  AUTOINCREMENT: the new rowid is one more than the largest of the counter and the rowids
  in the table; when that largest is the last rowid the insert fails with SQLITE_FULL.
\<close>

definition next_rowid :: "table \<Rightarrow> error + int" where
  "next_rowid tb =
     (let m = fold max (rids tb) (seq tb)
      in if max_rowid \<le> m then Inl DatabaseFull else Inr (m + 1))"

text \<open>
  The rowid of an inserted row: generated when the statement gives none or NULL, the
  integer the given value stands for otherwise; anything else is a datatype mismatch.
\<close>

definition new_rowid :: "engine \<Rightarrow> table \<Rightarrow> sqlval option \<Rightarrow> error + int" where
  "new_rowid e tb v =
     (case v of
        None \<Rightarrow> next_rowid tb
      | Some VNull \<Rightarrow> next_rowid tb
      | Some w \<Rightarrow> to_rowid e w)"

text \<open>The rowid of an updated row: unchanged unless the statement assigns it.\<close>

definition updated_rowid :: "engine \<Rightarrow> int \<Rightarrow> sqlval option \<Rightarrow> error + int" where
  "updated_rowid e k v = (case v of None \<Rightarrow> Inr k | Some w \<Rightarrow> to_rowid e w)"

subsection \<open>Constraint checks\<close>

definition default_value :: "string \<Rightarrow> column \<Rightarrow> sqlval" where
  "default_value now c =
     (case cdefault c of
        NoDefault \<Rightarrow> VNull
      | DefaultLit v \<Rightarrow> v
      | DefaultNow \<Rightarrow> VText now)"

text \<open>
  The values of a new row: for each column what the statement gives for it, or the
  column's default where the statement does not name it, as the column's affinity stores
  it. \<^verbatim>\<open>now\<close> is what \<^verbatim>\<open>datetime('now')\<close> returns while the statement runs.
\<close>

definition new_vals :: "catalog \<Rightarrow> engine \<Rightarrow> string \<Rightarrow> tname \<Rightarrow> (string \<times> sqlval) list \<Rightarrow> (string \<times> sqlval) list" where
  "new_vals cat e now t cvs =
     map (\<lambda>c. (cname c,
               apply_affinity e (aff c)
                 (case first_value cat t cvs (cname c) of
                    Some v \<Rightarrow> v
                  | None \<Rightarrow> default_value now c)))
       (cat t)"

text \<open>
  The values of an updated row: for each column the last value the statement assigns to
  it, as the column's affinity stores it, or the old value where the statement does not
  assign the column.
\<close>

definition updated_vals :: "catalog \<Rightarrow> engine \<Rightarrow> tname \<Rightarrow> (string \<times> sqlval) list \<Rightarrow> row \<Rightarrow> (string \<times> sqlval) list" where
  "updated_vals cat e t asg r =
     map (\<lambda>c. (cname c,
               case last_value cat t asg (cname c) of
                 Some v \<Rightarrow> apply_affinity e (aff c) v
               | None \<Rightarrow> cell r (cname c)))
       (cat t)"

text \<open>The columns an UPDATE assigns.\<close>

definition assigned :: "catalog \<Rightarrow> tname \<Rightarrow> (string \<times> sqlval) list \<Rightarrow> column list" where
  "assigned cat t asg = filter (\<lambda>c. last_value cat t asg (cname c) \<noteq> None) (cat t)"

definition not_null_violation :: "column list \<Rightarrow> row \<Rightarrow> column option" where
  "not_null_violation cols r = find (\<lambda>c. notnull c \<and> cell r (cname c) = VNull) cols"

text \<open>A CHECK fails only when its expression is false; on NULL it is NULL and passes.\<close>

definition check_violation :: "column list \<Rightarrow> row \<Rightarrow> column option" where
  "check_violation cols r =
     find (\<lambda>c. case chk c of
                 None \<Rightarrow> False
               | Some vs \<Rightarrow> cell r (cname c) \<noteq> VNull \<and> cell r (cname c) \<notin> set vs)
       cols"

definition unique_violation :: "column list \<Rightarrow> row \<Rightarrow> row list \<Rightarrow> column option" where
  "unique_violation cols r others =
     find (\<lambda>c. uniq c \<and> cell r (cname c) \<noteq> VNull
               \<and> cell r (cname c) \<in> set (map (\<lambda>x. cell x (cname c)) others))
       cols"

text \<open>
  The checks of a row against the other rows of its table, in the engine's order: NOT NULL
  and CHECK on the columns \<open>cols\<close>, the primary key when \<open>pk\<close> is set, UNIQUE on the
  columns \<open>ucols\<close>. An INSERT checks every column; an UPDATE checks NOT NULL and CHECK
  on the columns it assigns, the primary key when it assigns the rowid, and UNIQUE on the
  columns it assigns (on all of them when it assigns the rowid).
\<close>

definition constraint_violation :: "column list \<Rightarrow> bool \<Rightarrow> column list \<Rightarrow> row \<Rightarrow> row list \<Rightarrow> error option" where
  "constraint_violation cols pk ucols r others =
     (case not_null_violation cols r of
        Some c \<Rightarrow> Some (NotNullFailed (cname c))
      | None \<Rightarrow>
     (case check_violation cols r of
        Some c \<Rightarrow> Some (CheckFailed (cname c))
      | None \<Rightarrow>
     (if pk \<and> rid r \<in> set (map rid others) then Some (UniqueFailed ''id'')
      else case unique_violation ucols r others of
             Some c \<Rightarrow> Some (UniqueFailed (cname c))
           | None \<Rightarrow> None)))"

text \<open>
  Foreign keys, child side: a referencing column is satisfied when it is NULL or holds the
  rowid of a row of the parent table.
\<close>

definition fk_col_ok :: "store \<Rightarrow> row \<Rightarrow> column \<Rightarrow> bool" where
  "fk_col_ok st r c =
     (case refs c of
        None \<Rightarrow> True
      | Some p \<Rightarrow>
          (case cell r (cname c) of
             VNull \<Rightarrow> True
           | VInt n \<Rightarrow> n \<in> set (rids (st p))
           | _ \<Rightarrow> False))"

definition fk_ok :: "catalog \<Rightarrow> store \<Rightarrow> tname \<Rightarrow> row \<Rightarrow> bool" where
  "fk_ok cat st t r = list_all (fk_col_ok st r) (cat t)"

text \<open>
  Foreign keys, parent side: the number of references to rowid \<open>k\<close> of table \<open>p\<close>, one
  for each referencing column of each row that holds \<open>k\<close>.
\<close>

definition ref_count :: "catalog \<Rightarrow> store \<Rightarrow> tname \<Rightarrow> int \<Rightarrow> nat" where
  "ref_count cat st p k =
     sum_list (map (\<lambda>t. sum_list (map (\<lambda>c. if refs c = Some p
                                            then length (filter (\<lambda>r. cell r (cname c) = VInt k)
                                                           (rows (st t)))
                                            else 0)
                                  (cat t)))
                all_tables)"

subsection \<open>Statements\<close>

datatype conflict = Abort | Ignore

text \<open>
  \<^verbatim>\<open>INSERT [OR IGNORE] INTO t (columns) VALUES (values)\<close>, already prepared. The rowid is
  chosen first and the AUTOINCREMENT counter follows it, then NOT NULL, CHECK, the primary
  key and UNIQUE are checked, and the foreign keys last. With OR IGNORE a row that
  violates one of the former is skipped without an error (the counter keeps the rowid it
  was given); a foreign key violation is an error in both modes.
\<close>

definition step_insert :: "catalog \<Rightarrow> engine \<Rightarrow> string \<Rightarrow> tname \<Rightarrow> conflict \<Rightarrow> (string \<times> sqlval) list \<Rightarrow> store \<Rightarrow> error + store" where
  "step_insert cat e now t cf cvs st =
     (case new_rowid e (st t) (last_value cat t cvs ''id'') of
        Inl err \<Rightarrow> Inl err
      | Inr n \<Rightarrow>
          (let r = \<lparr>rid = n, vals = new_vals cat e now t cvs\<rparr> in
           case constraint_violation (cat t) True (cat t) r (rows (st t)) of
             Some err \<Rightarrow>
               (if cf = Ignore then Inr (st(t := (st t)\<lparr>seq := max (seq (st t)) n\<rparr>))
                else Inl err)
           | None \<Rightarrow>
               (let st' = st(t := \<lparr>rows = rows (st t) @ [r], seq = max (seq (st t)) n\<rparr>)
                in if fk_ok cat st' t r then Inr st' else Inl ForeignKeyFailed)))"

definition insert_row :: "catalog \<Rightarrow> engine \<Rightarrow> string \<Rightarrow> tname \<Rightarrow> conflict \<Rightarrow> (string \<times> sqlval) list \<Rightarrow> store \<Rightarrow> error + store" where
  "insert_row cat e now t cf cvs st =
     (case unknown_column cat t (map fst cvs) of
        Some c \<Rightarrow> Inl (NoSuchColumn c)
      | None \<Rightarrow> step_insert cat e now t cf cvs st)"

text \<open>
  \<^verbatim>\<open>UPDATE t SET c = v, ... WHERE id = k\<close>. No row with that rowid: nothing changes.
  Constraints are checked for what the statement assigns. The foreign keys are counted:
  every reference to the old rowid (when the statement assigns the rowid) and every
  assigned referencing column that finds no parent row is a violation, every reference
  to the new rowid (when the statement assigns the rowid) takes one back, and the
  statement fails when violations remain.
\<close>

definition update_row :: "catalog \<Rightarrow> engine \<Rightarrow> tname \<Rightarrow> int \<Rightarrow> (string \<times> sqlval) list \<Rightarrow> store \<Rightarrow> error + store" where
  "update_row cat e t k asg st =
     (case unknown_column cat t (map fst asg) of
        Some c \<Rightarrow> Inl (NoSuchColumn c)
      | None \<Rightarrow>
     (case find (\<lambda>r. rid r = k) (rows (st t)) of
        None \<Rightarrow> Inr st
      | Some r \<Rightarrow>
     (case updated_rowid e k (last_value cat t asg ''id'') of
        Inl err \<Rightarrow> Inl err
      | Inr n \<Rightarrow>
          (let r' = \<lparr>rid = n, vals = updated_vals cat e t asg r\<rparr>;
               pk = (last_value cat t asg ''id'' \<noteq> None);
               cols = assigned cat t asg;
               others = filter (\<lambda>x. rid x \<noteq> k) (rows (st t))
           in case constraint_violation cols pk (if pk then cat t else cols) r' others of
                Some err \<Rightarrow> Inl err
              | None \<Rightarrow>
                  (let st' = st(t := (st t)\<lparr>rows := map (\<lambda>x. if rid x = k then r' else x)
                                                       (rows (st t))\<rparr>);
                       violations = (if pk then ref_count cat st t k else 0)
                                    + length (filter (\<lambda>c. \<not> fk_col_ok st' r' c) cols);
                       taken_back = (if pk then ref_count cat st' t n else 0)
                   in if violations \<le> taken_back then Inr st'
                      else Inl ForeignKeyFailed)))))"

text \<open>
  \<^verbatim>\<open>DELETE FROM t WHERE id = k\<close>: refused while a row references the deleted one (the
  references have no ON DELETE action).
\<close>

definition delete_row :: "catalog \<Rightarrow> tname \<Rightarrow> int \<Rightarrow> store \<Rightarrow> error + store" where
  "delete_row cat t k st =
     (if k \<in> set (rids (st t)) \<and> 0 < ref_count cat st t k then Inl ForeignKeyFailed
      else Inr (st(t := (st t)\<lparr>rows := filter (\<lambda>x. rid x \<noteq> k) (rows (st t))\<rparr>)))"

text \<open>
  A write is one statement together with the clock reading it runs at. A statement that
  fails leaves the database as it was.
\<close>

datatype stmt =
    Insert string tname conflict "(string \<times> sqlval) list"
  | Update tname int "(string \<times> sqlval) list"
  | Delete tname int

fun apply_write :: "catalog \<Rightarrow> engine \<Rightarrow> stmt \<Rightarrow> store \<Rightarrow> error + store" where
  "apply_write cat e (Insert now t cf cvs) st = insert_row cat e now t cf cvs st"
| "apply_write cat e (Update t k asg) st = update_row cat e t k asg st"
| "apply_write cat e (Delete t k) st = delete_row cat t k st"

definition exec_write :: "catalog \<Rightarrow> engine \<Rightarrow> stmt \<Rightarrow> store \<Rightarrow> store" where
  "exec_write cat e w st = (case apply_write cat e w st of Inl _ \<Rightarrow> st | Inr st' \<Rightarrow> st')"

text \<open>The store after a history of writes on a database whose tables are still empty.\<close>

definition store_after :: "catalog \<Rightarrow> engine \<Rightarrow> stmt list \<Rightarrow> store" where
  "store_after cat e ws = fold (exec_write cat e) ws empty_store"

subsection \<open>The link script\<close>

text \<open>An account as \<^verbatim>\<open>accountsGet\<close> returns it, with the fields the script reads.\<close>

record plaid_account =
  acc_account_id :: string
  acc_name :: string
  acc_official_name :: "string option"
  acc_type :: string
  acc_subtype :: "string option"
  acc_mask :: "string option"

text \<open>\<^verbatim>\<open>x || null\<close> on a string that may be missing: the empty string is falsy too.\<close>

definition or_null :: "string option \<Rightarrow> sqlval" where
  "or_null x = (case x of None \<Rightarrow> VNull | Some s \<Rightarrow> if s = [] then VNull else VText s)"

text \<open>The column list of the script's \<^verbatim>\<open>INSERT OR IGNORE INTO accounts\<close>.\<close>

definition link_columns :: "string list" where
  "link_columns =
     [''plaid_account_id'', ''plaid_item_id'', ''access_token'', ''name'', ''official_name'',
      ''type'', ''subtype'', ''mask'']"

text \<open>The object \<^verbatim>\<open>insert.run\<close> is given for one account, in the order of the column list.\<close>

definition link_params :: "string \<Rightarrow> string \<Rightarrow> plaid_account \<Rightarrow> (string \<times> sqlval) list" where
  "link_params access_token item_id acc =
     [(''plaid_account_id'', VText (acc_account_id acc)),
      (''plaid_item_id'', VText item_id),
      (''access_token'', VText access_token),
      (''name'', VText (acc_name acc)),
      (''official_name'', or_null (acc_official_name acc)),
      (''type'', VText (acc_type acc)),
      (''subtype'', or_null (acc_subtype acc)),
      (''mask'', or_null (acc_mask acc))]"

text \<open>
  \<^verbatim>\<open>db.transaction(() => { for (const acc of accounts) insert.run(...) })()\<close>: the first
  statement that throws rolls the transaction back, so an error leaves the store as it was.
  \<open>now\<close> gives the clock reading at each account's insert.
\<close>

fun insert_accounts :: "catalog \<Rightarrow> engine \<Rightarrow> (plaid_account \<Rightarrow> string) \<Rightarrow> string \<Rightarrow> string \<Rightarrow> plaid_account list \<Rightarrow> store \<Rightarrow> error + store" where
  "insert_accounts cat e now access_token item_id [] st = Inr st"
| "insert_accounts cat e now access_token item_id (acc # accs) st =
     (case step_insert cat e (now acc) Accounts Ignore (link_params access_token item_id acc) st of
        Inl err \<Rightarrow> Inl err
      | Inr st' \<Rightarrow> insert_accounts cat e now access_token item_id accs st')"

text \<open>
  \<^verbatim>\<open>handleExchange\<close> from the token exchange on: \<open>access_token\<close> and \<open>item_id\<close> are what
  \<^verbatim>\<open>itemPublicTokenExchange\<close> returned and \<open>accounts\<close> what \<^verbatim>\<open>accountsGet\<close> returned.
  \<^verbatim>\<open>db.prepare\<close> compiles the statement before anything is written and throws when it
  cannot; the exception rejects the handler's promise (the server answers 500).
\<close>

definition handleExchange :: "catalog \<Rightarrow> engine \<Rightarrow> (plaid_account \<Rightarrow> string) \<Rightarrow> string \<Rightarrow> string \<Rightarrow> plaid_account list \<Rightarrow> store \<Rightarrow> error + store" where
  "handleExchange cat e now access_token item_id accounts st =
     (case unknown_column cat Accounts link_columns of
        Some c \<Rightarrow> Inl (NoSuchColumn c)
      | None \<Rightarrow> insert_accounts cat e now access_token item_id accounts st)"

subsection \<open>Invariants of the store\<close>

text \<open>A row meets the NOT NULL and the CHECK of a column.\<close>

definition col_ok :: "row \<Rightarrow> column \<Rightarrow> bool" where
  "col_ok r c =
     ((notnull c \<longrightarrow> cell r (cname c) \<noteq> VNull) \<and>
      (case chk c of
         None \<Rightarrow> True
       | Some vs \<Rightarrow> cell r (cname c) = VNull \<or> cell r (cname c) \<in> set vs))"

text \<open>
  The three invariants of a store: every row meets the constraints of every column of
  its table, rowids are unique within a table, and every reference points to an existing
  row.
\<close>

definition rows_ok :: "catalog \<Rightarrow> store \<Rightarrow> bool" where
  "rows_ok cat st = (\<forall>t. \<forall>r\<in>set (rows (st t)). \<forall>c\<in>set (cat t). col_ok r c)"

definition ids_distinct :: "store \<Rightarrow> bool" where
  "ids_distinct st = (\<forall>t. distinct (rids (st t)))"

definition fk_consistent :: "catalog \<Rightarrow> store \<Rightarrow> bool" where
  "fk_consistent cat st = (\<forall>t. \<forall>r\<in>set (rows (st t)). fk_ok cat st t r)"

text \<open>No table of the catalog references itself.\<close>

definition no_self_ref :: "catalog \<Rightarrow> bool" where
  "no_self_ref cat = (\<forall>t. \<forall>c\<in>set (cat t). refs c \<noteq> Some t)"

text \<open>
  What an accepted UPDATE that finds its row has done: \<open>r\<close> is the row it found and
  \<open>r'\<close> the row that took its place.
\<close>

definition updated :: "catalog \<Rightarrow> engine \<Rightarrow> tname \<Rightarrow> int \<Rightarrow> (string \<times> sqlval) list \<Rightarrow> store \<Rightarrow> store \<Rightarrow> row \<Rightarrow> row \<Rightarrow> bool" where
  "updated cat e t k asg st st' r r' \<longleftrightarrow>
     r \<in> set (rows (st t)) \<and> rid r = k
     \<and> vals r' = updated_vals cat e t asg r
     \<and> updated_rowid e k (last_value cat t asg ''id'') = Inr (rid r')
     \<and> st' = st(t := (st t)\<lparr>rows := map (\<lambda>x. if rid x = k then r' else x) (rows (st t))\<rparr>)
     \<and> (\<forall>c\<in>set (assigned cat t asg). col_ok r' c)
     \<and> (last_value cat t asg ''id'' \<noteq> None \<longrightarrow>
           rid r' \<notin> set (map rid (filter (\<lambda>x. rid x \<noteq> k) (rows (st t)))))
     \<and> (if last_value cat t asg ''id'' \<noteq> None then ref_count cat st t k else 0)
         + length (filter (\<lambda>c. \<not> fk_col_ok st' r' c) (assigned cat t asg))
         \<le> (if last_value cat t asg ''id'' \<noteq> None then ref_count cat st' t (rid r') else 0)"

subsection \<open>Derived notions and example statements\<close>




text \<open>
  Example statements, after Scenario A of the design: two linked accounts (rowids 1 and 2),
  a hold of 50.00 from the first to the second, and one transfer attempt for it.
\<close>

definition link_a :: stmt where
  "link_a = Insert ''2026-01-01 10:00:00'' Accounts Abort
     [(''plaid_account_id'', VText ''acc-A''), (''plaid_item_id'', VText ''item-1''),
      (''name'', VText ''Checking''), (''type'', VText ''depository'')]"

definition link_b :: stmt where
  "link_b = Insert ''2026-01-01 10:00:00'' Accounts Abort
     [(''plaid_account_id'', VText ''acc-B''), (''plaid_item_id'', VText ''item-1''),
      (''name'', VText ''Card''), (''type'', VText ''credit'')]"

definition hold_ab :: stmt where
  "hold_ab = Insert ''2026-01-02 09:00:00'' Held_funds Abort
     [(''account_id'', VInt 1), (''card_account_id'', VInt 2), (''amount'', VReal 50)]"

definition attempt_ab :: stmt where
  "attempt_ab = Insert ''2026-01-02 09:00:05'' Transfer_log Abort
     [(''held_fund_id'', VInt 1), (''from_account_id'', VInt 1), (''to_account_id'', VInt 2),
      (''amount'', VReal 50)]"

definition scenario :: "stmt list" where
  "scenario = [link_a, link_b, hold_ab, attempt_ab]"

text \<open>
  Further example statements: a hold whose two accounts are the same and whose amount is
  negative; an attempt recorded as posted under the gateway's transfer id \<^verbatim>\<open>T1\<close>; an attempt
  left pending but given a completion time; an attempt recorded as posted without one; an
  attempt that leaves out the status and names the three other columns that have a
  default.
\<close>

definition hold_self :: stmt where
  "hold_self = Insert ''2026-01-02 09:00:00'' Held_funds Abort
     [(''account_id'', VInt 1), (''card_account_id'', VInt 1), (''amount'', VReal (- 5))]"

definition attempt_t1 :: stmt where
  "attempt_t1 = Insert ''2026-01-02 09:00:05'' Transfer_log Abort
     [(''held_fund_id'', VInt 1), (''from_account_id'', VInt 1), (''to_account_id'', VInt 2),
      (''amount'', VReal 50), (''status'', VText ''posted''), (''plaid_transfer_id'', VText ''T1''),
      (''completed_at'', VText ''2026-01-02 09:00:07'')]"

definition attempt_pending_completed :: stmt where
  "attempt_pending_completed = Insert ''2026-01-02 09:00:05'' Transfer_log Abort
     [(''held_fund_id'', VInt 1), (''from_account_id'', VInt 1), (''to_account_id'', VInt 2),
      (''amount'', VReal 50), (''completed_at'', VText ''2026-01-02 09:00:07'')]"

definition attempt_posted_open :: stmt where
  "attempt_posted_open = Insert ''2026-01-02 09:00:05'' Transfer_log Abort
     [(''held_fund_id'', VInt 1), (''from_account_id'', VInt 1), (''to_account_id'', VInt 2),
      (''amount'', VReal 50), (''status'', VText ''posted'')]"

definition backdated_values :: "(string \<times> sqlval) list" where
  "backdated_values =
     [(''held_fund_id'', VInt 1), (''from_account_id'', VInt 1), (''to_account_id'', VInt 2),
      (''amount'', VReal 50), (''plaid_transfer_id'', VText ''T1''),
      (''initiated_at'', VText ''1999-12-31 23:59:59''),
      (''completed_at'', VText ''2026-01-02 09:00:07'')]"

definition attempt_backdated :: stmt where
  "attempt_backdated = Insert ''2026-01-02 09:00:05'' Transfer_log Abort backdated_values"

text \<open>
  Statements the foreign keys refuse after the example history: deleting account 1, which
  the hold and the attempt reference, and an attempt for a held fund 7 that does not exist.
  And a statement the checks accept: releasing hold 1.
\<close>

definition delete_a :: stmt where
  "delete_a = Delete Accounts 1"

definition attempt_orphan :: stmt where
  "attempt_orphan = Insert ''2026-01-02 09:00:05'' Transfer_log Abort
     [(''held_fund_id'', VInt 7), (''from_account_id'', VInt 1), (''to_account_id'', VInt 2),
      (''amount'', VReal 50)]"

definition release_hold :: stmt where
  "release_hold = Update Held_funds 1 [(''status'', VText ''released'')]"

text \<open>
  Two accounts as the link script receives them, and an account row written with the
  last rowid but one, after which the table has one rowid left.
\<close>

definition plaid_a :: plaid_account where
  "plaid_a = \<lparr>acc_account_id = ''acc-A'', acc_name = ''Checking'', acc_official_name = None,
               acc_type = ''depository'', acc_subtype = Some ''checking'', acc_mask = Some ''0000''\<rparr>"




definition hold_valid :: "row \<Rightarrow> bool" where
  "hold_valid r =
     ((case cell r ''amount'' of VInt n \<Rightarrow> 0 < n | VReal x \<Rightarrow> 0 < x | _ \<Rightarrow> False)
      \<and> cell r ''account_id'' \<noteq> cell r ''card_account_id'')"


definition transfer_ids :: "store \<Rightarrow> sqlval list" where
  "transfer_ids st =
     filter (\<lambda>v. v \<noteq> VNull) (map (\<lambda>r. cell r ''plaid_transfer_id'') (rows (st Transfer_log)))"


section \<open>What a statement does to the rows\<close>

lemma all_tables_complete: "t \<in> set all_tables"
  by (cases t) (simp_all add: all_tables_def)

lemma not_null_violation_None:
  "not_null_violation cols r = None \<longleftrightarrow> (\<forall>c\<in>set cols. notnull c \<longrightarrow> cell r (cname c) \<noteq> VNull)"
  unfolding not_null_violation_def find_None_iff by blast

lemma check_violation_None:
  "check_violation cols r = None \<longleftrightarrow>
     (\<forall>c\<in>set cols. case chk c of None \<Rightarrow> True
                     | Some vs \<Rightarrow> cell r (cname c) = VNull \<or> cell r (cname c) \<in> set vs)"
  unfolding check_violation_def find_None_iff
  by (auto split: option.splits)

lemma constraint_violation_None:
  "constraint_violation cols pk ucols r others = None \<longleftrightarrow>
     (\<forall>c\<in>set cols. col_ok r c) \<and> (pk \<longrightarrow> rid r \<notin> set (map rid others))
     \<and> unique_violation ucols r others = None"
proof -
  have "(\<forall>c\<in>set cols. col_ok r c) \<longleftrightarrow>
          not_null_violation cols r = None \<and> check_violation cols r = None"
    unfolding not_null_violation_None check_violation_None col_ok_def by blast
  then show ?thesis
    by (auto simp: constraint_violation_def split: option.splits)
qed

lemma fk_ok_iff: "fk_ok cat st t r \<longleftrightarrow> (\<forall>c\<in>set (cat t). fk_col_ok st r c)"
  by (simp add: fk_ok_def list_all_iff)

lemma fk_col_ok_iff:
  "fk_col_ok st r c \<longleftrightarrow>
     (\<forall>p. refs c = Some p \<longrightarrow>
        cell r (cname c) = VNull \<or> (\<exists>n. cell r (cname c) = VInt n \<and> n \<in> set (rids (st p))))"
  by (auto simp: fk_col_ok_def split: option.splits sqlval.splits)

lemma fk_col_ok_mono:
  assumes "fk_col_ok st r c" and "\<And>p. set (rids (st p)) \<subseteq> set (rids (st' p))"
  shows "fk_col_ok st' r c"
  using assms unfolding fk_col_ok_iff by blast

lemma fk_col_ok_cong:
  assumes "cell r' (cname c) = cell r (cname c)"
    and "\<And>p. refs c = Some p \<Longrightarrow> set (rids (st' p)) = set (rids (st p))"
  shows "fk_col_ok st' r' c = fk_col_ok st r c"
  using assms unfolding fk_col_ok_iff by auto

lemma col_ok_cong:
  assumes "cell r' (cname c) = cell r (cname c)"
  shows "col_ok r' c = col_ok r c"
  using assms by (simp add: col_ok_def split: option.splits)

lemma ref_count_zero:
  "ref_count cat st p k = 0 \<longleftrightarrow>
     (\<forall>t. \<forall>c\<in>set (cat t). refs c = Some p \<longrightarrow> (\<forall>r\<in>set (rows (st t)). cell r (cname c) \<noteq> VInt k))"
proof -
  have "ref_count cat st p k = 0 \<longleftrightarrow>
      (\<forall>t\<in>set all_tables. \<forall>c\<in>set (cat t). refs c = Some p \<longrightarrow>
          filter (\<lambda>r. cell r (cname c) = VInt k) (rows (st t)) = [])"
    by (auto simp: ref_count_def)
  also have "\<dots> \<longleftrightarrow> (\<forall>t. \<forall>c\<in>set (cat t). refs c = Some p \<longrightarrow>
        (\<forall>r\<in>set (rows (st t)). cell r (cname c) \<noteq> VInt k))"
    using all_tables_complete by (auto simp: filter_empty_conv)
  finally show ?thesis .
qed

lemma ref_count_cong:
  assumes "\<And>t c. c \<in> set (cat t) \<Longrightarrow> refs c = Some p \<Longrightarrow> rows (st' t) = rows (st t)"
  shows "ref_count cat st' p k = ref_count cat st p k"
proof -
  have "(\<Sum>c\<leftarrow>cat t. if refs c = Some p
            then length (filter (\<lambda>r. cell r (cname c) = VInt k) (rows (st' t))) else 0)
      = (\<Sum>c\<leftarrow>cat t. if refs c = Some p
            then length (filter (\<lambda>r. cell r (cname c) = VInt k) (rows (st t))) else 0)" for t
    by (rule arg_cong [where f = sum_list], rule map_cong) (auto simp: assms)
  then show ?thesis by (simp add: ref_count_def)
qed

lemma map_of_columns:
  "map_of (map (\<lambda>c. (cname c, f c)) cs) x =
     (case find (\<lambda>c. cname c = x) cs of None \<Rightarrow> None | Some c \<Rightarrow> Some (f c))"
  by (induction cs) auto

lemma cell_updated_unassigned:
  assumes "c \<in> set (cat t)" and "last_value cat t asg (cname c) = None"
    and "cname c = ''id'' \<Longrightarrow> n = rid r"
  shows "cell \<lparr>rid = n, vals = updated_vals cat e t asg r\<rparr> (cname c) = cell r (cname c)"
proof (cases "cname c = ''id''")
  case True
  with assms(3) show ?thesis by (simp add: cell_def)
next
  case False
  from assms(1) obtain c0 where c0: "find (\<lambda>x. cname x = cname c) (cat t) = Some c0"
    by (cases "find (\<lambda>x. cname x = cname c) (cat t)") (auto simp: find_None_iff)
  then have n0: "cname c0 = cname c" by (auto simp: find_Some_iff)
  with assms(2) have "last_value cat t asg (cname c0) = None" by simp
  with c0 n0 False show ?thesis
    by (simp add: cell_def updated_vals_def map_of_columns)
qed

lemma step_insert_effect:
  assumes "step_insert cat e now t cf cvs st = Inr st'"
  shows "(\<forall>u. u \<noteq> t \<longrightarrow> st' u = st u) \<and>
         (rows (st' t) = rows (st t) \<or>
          (\<exists>r. rows (st' t) = rows (st t) @ [r]
             \<and> vals r = new_vals cat e now t cvs
             \<and> new_rowid e (st t) (last_value cat t cvs ''id'') = Inr (rid r)
             \<and> (\<forall>c\<in>set (cat t). col_ok r c)
             \<and> rid r \<notin> set (rids (st t))
             \<and> fk_ok cat st' t r))"
proof -
  from assms obtain n where n: "new_rowid e (st t) (last_value cat t cvs ''id'') = Inr n"
    by (cases "new_rowid e (st t) (last_value cat t cvs ''id'')") (simp_all add: step_insert_def)
  define r where "r = \<lparr>rid = n, vals = new_vals cat e now t cvs\<rparr>"
  show ?thesis
  proof (cases "constraint_violation (cat t) True (cat t) r (rows (st t))")
    case (Some err)
    with assms n have "st' = st(t := (st t)\<lparr>seq := max (seq (st t)) n\<rparr>)"
      by (simp add: step_insert_def r_def split: if_splits)
    then show ?thesis by simp
  next
    case None
    define st1 where "st1 = st(t := \<lparr>rows = rows (st t) @ [r], seq = max (seq (st t)) n\<rparr>)"
    from assms n None have st': "st' = st1" and fk: "fk_ok cat st1 t r"
      by (simp_all add: step_insert_def r_def st1_def Let_def split: if_splits)
    from None have "\<forall>c\<in>set (cat t). col_ok r c" and "rid r \<notin> set (rids (st t))"
      by (simp_all add: constraint_violation_None rids_def)
    with st' fk n have "rows (st' t) = rows (st t) @ [r]
             \<and> vals r = new_vals cat e now t cvs
             \<and> new_rowid e (st t) (last_value cat t cvs ''id'') = Inr (rid r)
             \<and> (\<forall>c\<in>set (cat t). col_ok r c)
             \<and> rid r \<notin> set (rids (st t))
             \<and> fk_ok cat st' t r"
      by (simp add: st1_def r_def)
    moreover from st' have "\<forall>u. u \<noteq> t \<longrightarrow> st' u = st u" by (simp add: st1_def)
    ultimately show ?thesis by blast
  qed
qed

lemma insert_effect:
  assumes "insert_row cat e now t cf cvs st = Inr st'"
  shows "(\<forall>u. u \<noteq> t \<longrightarrow> st' u = st u) \<and>
         (rows (st' t) = rows (st t) \<or>
          (\<exists>r. rows (st' t) = rows (st t) @ [r]
             \<and> vals r = new_vals cat e now t cvs
             \<and> new_rowid e (st t) (last_value cat t cvs ''id'') = Inr (rid r)
             \<and> (\<forall>c\<in>set (cat t). col_ok r c)
             \<and> rid r \<notin> set (rids (st t))
             \<and> fk_ok cat st' t r))"
proof -
  from assms have "step_insert cat e now t cf cvs st = Inr st'"
    by (simp add: insert_row_def split: option.splits)
  then show ?thesis by (rule step_insert_effect)
qed

lemma update_effect:
  assumes "update_row cat e t k asg st = Inr st'"
  shows "st' = st \<or> (\<exists>r r'. updated cat e t k asg st st' r r')"
proof (cases "find (\<lambda>r. rid r = k) (rows (st t))")
  case None
  with assms have "st' = st" by (simp add: update_row_def split: option.splits)
  then show ?thesis ..
next
  case (Some r)
  then have r: "r \<in> set (rows (st t))" "rid r = k"
    by (auto simp: find_Some_iff)
  from assms Some obtain n where n: "updated_rowid e k (last_value cat t asg ''id'') = Inr n"
    by (cases "updated_rowid e k (last_value cat t asg ''id'')")
       (simp_all add: update_row_def split: option.splits)
  define r' where "r' = \<lparr>rid = n, vals = updated_vals cat e t asg r\<rparr>"
  define pk where "pk = (last_value cat t asg ''id'' \<noteq> None)"
  define others where "others = filter (\<lambda>x. rid x \<noteq> k) (rows (st t))"
  define st1 where "st1 = st(t := (st t)\<lparr>rows := map (\<lambda>x. if rid x = k then r' else x) (rows (st t))\<rparr>)"
  from assms Some n have cv: "constraint_violation (assigned cat t asg) pk
        (if pk then cat t else assigned cat t asg) r' others = None"
    and st': "st' = st1"
    and fk: "(if pk then ref_count cat st t k else 0)
         + length (filter (\<lambda>c. \<not> fk_col_ok st1 r' c) (assigned cat t asg))
         \<le> (if pk then ref_count cat st1 t n else 0)"
    unfolding update_row_def r'_def pk_def others_def st1_def Let_def
    by (auto split: option.splits if_splits)
  from cv have "\<forall>c\<in>set (assigned cat t asg). col_ok r' c"
    and "pk \<longrightarrow> rid r' \<notin> set (map rid others)"
    by (simp_all add: constraint_violation_None)
  moreover have "vals r' = updated_vals cat e t asg r" and "rid r' = n"
    by (simp_all add: r'_def)
  ultimately have "updated cat e t k asg st st' r r'"
    using r n st' fk unfolding updated_def pk_def others_def st1_def
    by (simp split: if_splits)
  then show ?thesis by blast
qed

lemma delete_effect:
  assumes "delete_row cat t k st = Inr st'"
  shows "st' = st(t := (st t)\<lparr>rows := filter (\<lambda>x. rid x \<noteq> k) (rows (st t))\<rparr>)
         \<and> (k \<in> set (rids (st t)) \<longrightarrow> ref_count cat st t k = 0)"
  using assms by (auto simp: delete_row_def split: if_splits)

subsection \<open>rows_ok\<close>

lemma insert_rows_ok:
  assumes "insert_row cat e now t cf cvs st = Inr st'" and "rows_ok cat st"
  shows "rows_ok cat st'"
  unfolding rows_ok_def
proof (intro allI ballI)
  fix u r c assume r: "r \<in> set (rows (st' u))" and c: "c \<in> set (cat u)"
  from insert_effect [OF assms(1)] r c assms(2) show "col_ok r c"
    by (cases "u = t") (auto simp: rows_ok_def)
qed

lemma updated_cell_unassigned:
  assumes u: "updated cat e t k asg st st' r r'"
    and c: "c \<in> set (cat t)" and n: "c \<notin> set (assigned cat t asg)"
  shows "cell r' (cname c) = cell r (cname c)"
proof -
  from c n have lv: "last_value cat t asg (cname c) = None" by (simp add: assigned_def)
  have id: "rid r' = rid r" if "cname c = ''id''"
    using that lv u by (simp add: updated_def updated_rowid_def)
  have "r' = \<lparr>rid = rid r', vals = updated_vals cat e t asg r\<rparr>"
    using u by (simp add: updated_def)
  with cell_updated_unassigned [OF c lv, of "rid r'" r e] id show ?thesis by simp
qed

lemma updated_rows:
  assumes "updated cat e t k asg st st' r r'" and "x \<in> set (rows (st' u))"
  shows "x \<in> set (rows (st u)) \<or> (u = t \<and> x = r')"
  using assms by (cases "u = t") (auto simp: updated_def split: if_splits)

lemma update_rows_ok:
  assumes "update_row cat e t k asg st = Inr st'" and "rows_ok cat st"
  shows "rows_ok cat st'"
proof -
  from update_effect [OF assms(1)] show ?thesis
  proof
    assume "st' = st" with assms(2) show ?thesis by simp
  next
    assume "\<exists>r r'. updated cat e t k asg st st' r r'"
    then obtain r r' where u: "updated cat e t k asg st st' r r'" by blast
    have r': "col_ok r' c" if c: "c \<in> set (cat t)" for c
    proof (cases "c \<in> set (assigned cat t asg)")
      case True with u show ?thesis by (simp add: updated_def)
    next
      case False
      from u have "r \<in> set (rows (st t))" by (simp add: updated_def)
      with assms(2) c have "col_ok r c" by (auto simp: rows_ok_def)
      with col_ok_cong [OF updated_cell_unassigned [OF u c False]] show ?thesis by simp
    qed
    show ?thesis unfolding rows_ok_def
    proof (intro allI ballI)
      fix v x c assume x: "x \<in> set (rows (st' v))" and c: "c \<in> set (cat v)"
      from updated_rows [OF u x] show "col_ok x c"
      proof
        assume "x \<in> set (rows (st v))" with assms(2) c show ?thesis by (auto simp: rows_ok_def)
      next
        assume "v = t \<and> x = r'" with r' c show ?thesis by simp
      qed
    qed
  qed
qed

lemma delete_rows_ok:
  assumes "delete_row cat t k st = Inr st'" and "rows_ok cat st"
  shows "rows_ok cat st'"
  unfolding rows_ok_def
proof (intro allI ballI)
  fix u r c assume r: "r \<in> set (rows (st' u))" and c: "c \<in> set (cat u)"
  from delete_effect [OF assms(1)] r have "r \<in> set (rows (st u))"
    by (cases "u = t") auto
  with assms(2) c show "col_ok r c" by (auto simp: rows_ok_def)
qed

subsection \<open>ids_distinct\<close>

lemma insert_ids_distinct:
  assumes "insert_row cat e now t cf cvs st = Inr st'" and "ids_distinct st"
  shows "ids_distinct st'"
  unfolding ids_distinct_def
proof
  fix u
  from assms(2) have d: "distinct (rids (st u))" by (simp add: ids_distinct_def)
  from insert_effect [OF assms(1)] d show "distinct (rids (st' u))"
    by (cases "u = t") (auto simp: rids_def)
qed

lemma distinct_replace:
  assumes "distinct (map rid xs)"
    and "rid r' \<notin> set (map rid (filter (\<lambda>x. rid x \<noteq> k) xs))"
  shows "distinct (map rid (map (\<lambda>x. if rid x = k then r' else x) xs))"
  using assms
proof (induction xs)
  case Nil then show ?case by simp
next
  case (Cons a xs)
  show ?case
  proof (cases "rid a = k")
    case True
    with Cons.prems(1) have "\<forall>x\<in>set xs. rid x \<noteq> k" by (auto simp: image_iff)
    then have same: "map (\<lambda>x. if rid x = k then r' else x) xs = xs"
      and f: "filter (\<lambda>x. rid x \<noteq> k) xs = xs"
      by (simp_all add: map_idI)
    with Cons.prems True show ?thesis by simp
  next
    case False
    from Cons.prems False have ne: "rid r' \<noteq> rid a" by auto
    have d: "distinct (map rid (map (\<lambda>x. if rid x = k then r' else x) xs))"
    proof (rule Cons.IH)
      from Cons.prems(1) show "distinct (map rid xs)" by simp
      from Cons.prems(2) show "rid r' \<notin> set (map rid (filter (\<lambda>x. rid x \<noteq> k) xs))"
        by (auto split: if_splits)
    qed
    have "rid a \<notin> rid ` (\<lambda>x. if rid x = k then r' else x) ` set xs"
      using Cons.prems(1) ne False by (auto simp: image_iff split: if_splits)
    with d False show ?thesis by (simp del: map_map)
  qed
qed

lemma replace_same_rid:
  assumes "rid r' = k"
  shows "map rid (map (\<lambda>x. if rid x = k then r' else x) xs) = map rid xs"
  using assms by (induction xs) auto

lemma update_ids_distinct:
  assumes "update_row cat e t k asg st = Inr st'" and "ids_distinct st"
  shows "ids_distinct st'"
proof -
  from update_effect [OF assms(1)] show ?thesis
  proof
    assume "st' = st" with assms(2) show ?thesis by simp
  next
    assume "\<exists>r r'. updated cat e t k asg st st' r r'"
    then obtain r r' where u: "updated cat e t k asg st st' r r'" by blast
    from assms(2) have d: "distinct (map rid (rows (st t)))"
      by (simp add: ids_distinct_def rids_def)
    have "distinct (map rid (map (\<lambda>x. if rid x = k then r' else x) (rows (st t))))"
    proof (cases "last_value cat t asg ''id''")
      case None
      with u have "rid r' = k" by (simp add: updated_def updated_rowid_def)
      with d show ?thesis by (simp only: replace_same_rid)
    next
      case (Some v)
      with u have "rid r' \<notin> set (map rid (filter (\<lambda>x. rid x \<noteq> k) (rows (st t))))"
        by (simp add: updated_def)
      with d show ?thesis by (rule distinct_replace)
    qed
    with u have "distinct (rids (st' t))" by (simp add: updated_def rids_def)
    moreover from u have "st' v = st v" if "v \<noteq> t" for v using that by (simp add: updated_def)
    ultimately show ?thesis using assms(2)
      unfolding ids_distinct_def by metis
  qed
qed

lemma delete_ids_distinct:
  assumes "delete_row cat t k st = Inr st'" and "ids_distinct st"
  shows "ids_distinct st'"
  unfolding ids_distinct_def
proof
  fix u
  from assms(2) have d: "distinct (rids (st u))" by (simp add: ids_distinct_def)
  from delete_effect [OF assms(1)] d show "distinct (rids (st' u))"
    by (cases "u = t") (auto simp: rids_def distinct_map_filter)
qed

subsection \<open>fk_consistent\<close>

lemma insert_fk_consistent:
  assumes "insert_row cat e now t cf cvs st = Inr st'" and "fk_consistent cat st"
  shows "fk_consistent cat st'"
  unfolding fk_consistent_def fk_ok_iff
proof (intro allI ballI)
  fix u x c assume x: "x \<in> set (rows (st' u))" and c: "c \<in> set (cat u)"
  note eff = insert_effect [OF assms(1)]
  have sub: "set (rids (st p)) \<subseteq> set (rids (st' p))" for p
    using eff by (cases "p = t") (auto simp: rids_def)
  from eff x have "x \<in> set (rows (st u)) \<or> (u = t \<and> fk_ok cat st' t x)"
    by (cases "u = t") auto
  then show "fk_col_ok st' x c"
  proof
    assume "x \<in> set (rows (st u))"
    with assms(2) c have "fk_col_ok st x c" by (auto simp: fk_consistent_def fk_ok_iff)
    then show ?thesis using sub by (rule fk_col_ok_mono)
  next
    assume "u = t \<and> fk_ok cat st' t x"
    with c show ?thesis by (auto simp: fk_ok_iff)
  qed
qed

lemma delete_fk_consistent:
  assumes "delete_row cat t k st = Inr st'" and "fk_consistent cat st"
  shows "fk_consistent cat st'"
  unfolding fk_consistent_def fk_ok_iff
proof (intro allI ballI)
  fix u x c assume x: "x \<in> set (rows (st' u))" and c: "c \<in> set (cat u)"
  note eff = delete_effect [OF assms(1)]
  from eff x have xu: "x \<in> set (rows (st u))" by (cases "u = t") auto
  with assms(2) c have ok: "fk_col_ok st x c" by (auto simp: fk_consistent_def fk_ok_iff)
  show "fk_col_ok st' x c"
    unfolding fk_col_ok_iff
  proof (intro allI impI)
    fix p assume p: "refs c = Some p"
    with ok have "cell x (cname c) = VNull
        \<or> (\<exists>n. cell x (cname c) = VInt n \<and> n \<in> set (rids (st p)))"
      by (simp add: fk_col_ok_iff)
    then show "cell x (cname c) = VNull
        \<or> (\<exists>n. cell x (cname c) = VInt n \<and> n \<in> set (rids (st' p)))"
    proof
      assume "cell x (cname c) = VNull" then show ?thesis ..
    next
      assume "\<exists>n. cell x (cname c) = VInt n \<and> n \<in> set (rids (st p))"
      then obtain n where n: "cell x (cname c) = VInt n" "n \<in> set (rids (st p))" by blast
      have "n \<in> set (rids (st' p))"
      proof (cases "p = t \<and> n = k")
        case True
        with n eff have "ref_count cat st t k = 0" by simp
        with c p True xu have "cell x (cname c) \<noteq> VInt k" by (auto simp: ref_count_zero)
        with n True show ?thesis by simp
      next
        case False
        with n eff show ?thesis by (cases "p = t") (auto simp: rids_def)
      qed
      with n show ?thesis by blast
    qed
  qed
qed

lemma updated_rids:
  assumes "updated cat e t k asg st st' r r'"
  shows "set (rids (st' t)) = (set (rids (st t)) - {k}) \<union> {rid r'}"
    and "u \<noteq> t \<Longrightarrow> st' u = st u"
proof -
  from assms have r: "r \<in> set (rows (st t))" "rid r = k"
    and st': "rows (st' t) = map (\<lambda>x. if rid x = k then r' else x) (rows (st t))"
    by (simp_all add: updated_def)
  show "set (rids (st' t)) = (set (rids (st t)) - {k}) \<union> {rid r'}"
    unfolding rids_def st' using r by (auto simp: image_iff split: if_splits)
  from assms show "u \<noteq> t \<Longrightarrow> st' u = st u" by (simp add: updated_def)
qed

lemma updated_fk:
  assumes "updated cat e t k asg st st' r r'"
  shows "(if last_value cat t asg ''id'' \<noteq> None then ref_count cat st t k else 0)
         + length (filter (\<lambda>c. \<not> fk_col_ok st' r' c) (assigned cat t asg))
         \<le> (if last_value cat t asg ''id'' \<noteq> None then ref_count cat st' t (rid r') else 0)"
  using assms unfolding updated_def by blast

lemma update_fk_consistent:
  assumes upd: "update_row cat e t k asg st = Inr st'"
    and fk: "fk_consistent cat st" and nsr: "no_self_ref cat"
  shows "fk_consistent cat st'"
proof -
  from update_effect [OF upd] show ?thesis
  proof
    assume "st' = st" with fk show ?thesis by simp
  next
    assume "\<exists>r r'. updated cat e t k asg st st' r r'"
    then obtain r r' where u: "updated cat e t k asg st st' r r'" by blast
    note rids_t = updated_rids(1) [OF u] and other = updated_rids(2) [OF u]
      and ineq = updated_fk [OF u]
    from u have r: "r \<in> set (rows (st t))" "rid r = k" by (simp_all add: updated_def)
    txt \<open>rows of the tables that reference \<open>t\<close> are as before\<close>
    have cong: "ref_count cat st' t j = ref_count cat st t j" for j
    proof (rule ref_count_cong)
      fix v c assume "c \<in> set (cat v)" "refs c = Some t"
      with nsr have "v \<noteq> t" by (auto simp: no_self_ref_def)
      with other show "rows (st' v) = rows (st v)" by simp
    qed
    txt \<open>a rowid that is not in \<open>t\<close> is referenced by no row\<close>
    have fresh: "ref_count cat st t j = 0" if "j \<notin> set (rids (st t))" for j
      unfolding ref_count_zero
    proof (intro allI ballI impI)
      fix v c x assume "c \<in> set (cat v)" "refs c = Some t" "x \<in> set (rows (st v))"
      with fk have "fk_col_ok st x c" by (auto simp: fk_consistent_def fk_ok_iff)
      with \<open>refs c = Some t\<close> that show "cell x (cname c) \<noteq> VInt j"
        by (auto simp: fk_col_ok_iff)
    qed
    txt \<open>when the rowid changes, the old one was referenced by no row\<close>
    have moved: "ref_count cat st t k = 0 \<and> rid r' \<notin> set (rids (st t))" if ne: "rid r' \<noteq> k"
    proof -
      from ne u have pk: "last_value cat t asg ''id'' \<noteq> None"
        by (auto simp: updated_def updated_rowid_def)
      with u have "rid r' \<notin> set (map rid (filter (\<lambda>x. rid x \<noteq> k) (rows (st t))))"
        by (simp add: updated_def)
      with ne have nin: "rid r' \<notin> set (rids (st t))" by (auto simp: rids_def)
      from fresh [OF nin] cong have "ref_count cat st' t (rid r') = 0" by simp
      with ineq pk have "ref_count cat st t k = 0" by simp
      with nin show ?thesis by simp
    qed
    txt \<open>every assigned referencing column finds its parent row\<close>
    have bad: "filter (\<lambda>c. \<not> fk_col_ok st' r' c) (assigned cat t asg) = []"
    proof (cases "last_value cat t asg ''id'' = None")
      case True with ineq show ?thesis by simp
    next
      case False
      show ?thesis
      proof (cases "rid r' = k")
        case True
        with ineq False cong show ?thesis by simp
      next
        case ne: False
        from moved [OF ne] cong fresh have "ref_count cat st' t (rid r') = 0" by simp
        with ineq False show ?thesis by simp
      qed
    qed
    txt \<open>rowids that some row references are still there\<close>
    have kept: "n \<in> set (rids (st' p))"
      if "n \<in> set (rids (st p))" and "c \<in> set (cat v)" and "refs c = Some p"
        and "x \<in> set (rows (st v))" and "cell x (cname c) = VInt n" for n p c v x
    proof (cases "p = t")
      case False with other that(1) show ?thesis by simp
    next
      case True
      show ?thesis
      proof (cases "rid r' = k")
        case True with rids_t r that(1) \<open>p = t\<close> show ?thesis by (auto simp: rids_def)
      next
        case False
        from moved [OF False] that(2-5) \<open>p = t\<close> have "n \<noteq> k"
          by (auto simp: ref_count_zero)
        with rids_t that(1) \<open>p = t\<close> show ?thesis by simp
      qed
    qed
    have old: "fk_col_ok st' x c" if x: "x \<in> set (rows (st v))" and c: "c \<in> set (cat v)" for x c v
      unfolding fk_col_ok_iff
    proof (intro allI impI)
      fix p assume p: "refs c = Some p"
      from fk x c have "fk_col_ok st x c" by (auto simp: fk_consistent_def fk_ok_iff)
      with p have "cell x (cname c) = VNull
          \<or> (\<exists>n. cell x (cname c) = VInt n \<and> n \<in> set (rids (st p)))"
        by (simp add: fk_col_ok_iff)
      with kept [OF _ c p x] show "cell x (cname c) = VNull
          \<or> (\<exists>n. cell x (cname c) = VInt n \<and> n \<in> set (rids (st' p)))"
        by blast
    qed
    have new: "fk_col_ok st' r' c" if c: "c \<in> set (cat t)" for c
    proof (cases "c \<in> set (assigned cat t asg)")
      case True
      with bad show ?thesis by (auto simp: filter_empty_conv)
    next
      case False
      have same: "cell r' (cname c) = cell r (cname c)"
        by (rule updated_cell_unassigned [OF u c False])
      from old [OF r(1) c] show ?thesis
        unfolding fk_col_ok_iff same .
    qed
    show ?thesis unfolding fk_consistent_def fk_ok_iff
    proof (intro allI ballI)
      fix v x c assume x: "x \<in> set (rows (st' v))" and c: "c \<in> set (cat v)"
      from updated_rows [OF u x] show "fk_col_ok st' x c"
      proof
        assume "x \<in> set (rows (st v))" then show ?thesis using c by (rule old)
      next
        assume "v = t \<and> x = r'" with new c show ?thesis by simp
      qed
    qed
  qed
qed

section \<open>Invariants over every history of writes\<close>

lemma exec_write_rows_ok: "rows_ok cat st \<Longrightarrow> rows_ok cat (exec_write cat e w st)"
  by (cases w)
     (auto simp: exec_write_def split: sum.splits
        intro: insert_rows_ok update_rows_ok delete_rows_ok)

lemma exec_write_ids_distinct: "ids_distinct st \<Longrightarrow> ids_distinct (exec_write cat e w st)"
  by (cases w)
     (auto simp: exec_write_def split: sum.splits
        intro: insert_ids_distinct update_ids_distinct delete_ids_distinct)

lemma exec_write_fk_consistent:
  "no_self_ref cat \<Longrightarrow> fk_consistent cat st \<Longrightarrow> fk_consistent cat (exec_write cat e w st)"
  by (cases w)
     (auto simp: exec_write_def split: sum.splits
        intro: insert_fk_consistent update_fk_consistent delete_fk_consistent)

lemma fold_exec_write_inv:
  assumes "P st" and "\<And>w st. P st \<Longrightarrow> P (exec_write cat e w st)"
  shows "P (fold (exec_write cat e) ws st)"
  using assms(1) by (induction ws arbitrary: st) (simp_all add: assms(2))

lemma store_after_rows_ok: "rows_ok cat (store_after cat e ws)"
  unfolding store_after_def
proof (rule fold_exec_write_inv [where P = "rows_ok cat"])
  show "rows_ok cat empty_store" by (simp add: rows_ok_def empty_store_def)
qed (rule exec_write_rows_ok)

lemma store_after_ids_distinct: "ids_distinct (store_after cat e ws)"
  unfolding store_after_def
proof (rule fold_exec_write_inv [where P = ids_distinct])
  show "ids_distinct empty_store" by (simp add: ids_distinct_def empty_store_def rids_def)
qed (rule exec_write_ids_distinct)

lemma store_after_fk_consistent:
  assumes "no_self_ref cat"
  shows "fk_consistent cat (store_after cat e ws)"
  unfolding store_after_def
proof (rule fold_exec_write_inv [where P = "fk_consistent cat"])
  show "fk_consistent cat empty_store" by (simp add: fk_consistent_def empty_store_def)
qed (rule exec_write_fk_consistent [OF assms])

lemma no_self_ref_schema: "no_self_ref schema"
  unfolding no_self_ref_def
proof
  fix t show "\<forall>c\<in>set (schema t). refs c \<noteq> Some t"
    by (cases t) (simp_all add: col_def)
qed

section \<open>Evaluating the example histories\<close>

lemma resolve_accounts:
  "resolve schema Accounts ''id'' = Some ''id''"
  "resolve schema Accounts ''plaid_account_id'' = Some ''plaid_account_id''"
  "resolve schema Accounts ''plaid_item_id'' = Some ''plaid_item_id''"
  "resolve schema Accounts ''access_token'' = None"
  "resolve schema Accounts ''name'' = Some ''name''"
  "resolve schema Accounts ''official_name'' = Some ''official_name''"
  "resolve schema Accounts ''type'' = Some ''type''"
  "resolve schema Accounts ''subtype'' = Some ''subtype''"
  "resolve schema Accounts ''mask'' = Some ''mask''"
  by (simp_all add: resolve_def lower_def col_def)


lemma resolve_held_funds:
  "resolve schema Held_funds ''account_id'' = Some ''account_id''"
  "resolve schema Held_funds ''card_account_id'' = Some ''card_account_id''"
  "resolve schema Held_funds ''amount'' = Some ''amount''"
  "resolve schema Held_funds ''status'' = Some ''status''"
  by (simp_all add: resolve_def lower_def col_def)

lemma resolve_transfer_log:
  "resolve schema Transfer_log ''held_fund_id'' = Some ''held_fund_id''"
  "resolve schema Transfer_log ''from_account_id'' = Some ''from_account_id''"
  "resolve schema Transfer_log ''to_account_id'' = Some ''to_account_id''"
  "resolve schema Transfer_log ''amount'' = Some ''amount''"
  "resolve schema Transfer_log ''status'' = Some ''status''"
  "resolve schema Transfer_log ''plaid_transfer_id'' = Some ''plaid_transfer_id''"
  "resolve schema Transfer_log ''initiated_at'' = Some ''initiated_at''"
  "resolve schema Transfer_log ''completed_at'' = Some ''completed_at''"
  by (simp_all add: resolve_def lower_def col_def)

lemmas engine_defs =
  store_after_def exec_write_def insert_row_def step_insert_def update_row_def delete_row_def
  unknown_column_def resolve_accounts resolve_held_funds resolve_transfer_log
  bound_def first_value_def last_value_def
  new_rowid_def next_rowid_def updated_rowid_def to_rowid_def
  numeric_affinity_def integer_affinity_def apply_affinity_def
  new_vals_def updated_vals_def assigned_def default_value_def
  constraint_violation_def not_null_violation_def check_violation_def unique_violation_def
  fk_ok_def fk_col_ok_def ref_count_def all_tables_def
  cell_def rids_def empty_store_def col_def held_statuses_def transfer_statuses_def
  max_rowid_def min_rowid_def Let_def

lemmas example_defs = scenario_def link_a_def link_b_def hold_ab_def attempt_ab_def
  hold_self_def attempt_t1_def attempt_pending_completed_def attempt_posted_open_def
  attempt_backdated_def backdated_values_def delete_a_def attempt_orphan_def release_hold_def


lemma scenario_held_funds:
  "rows (store_after schema e scenario Held_funds) =
     [\<lparr>rid = 1, vals = [(''account_id'', VInt 1), (''card_account_id'', VInt 2),
         (''amount'', VReal 50), (''status'', VText ''held''),
         (''created_at'', VText ''2026-01-02 09:00:00''),
         (''updated_at'', VText ''2026-01-02 09:00:00'')]\<rparr>]"
  by (simp add: engine_defs example_defs)

lemma scenario_transfer_log:
  "rows (store_after schema e scenario Transfer_log) =
     [\<lparr>rid = 1, vals = [(''held_fund_id'', VInt 1), (''from_account_id'', VInt 1),
         (''to_account_id'', VInt 2), (''amount'', VReal 50), (''status'', VText ''pending''),
         (''plaid_transfer_id'', VNull), (''initiated_at'', VText ''2026-01-02 09:00:05''),
         (''completed_at'', VNull)]\<rparr>]"
  by (simp add: engine_defs example_defs)

lemma rejected_writes:
  "apply_write schema e delete_a (store_after schema e scenario) = Inl ForeignKeyFailed"
  "apply_write schema e attempt_orphan (store_after schema e scenario) = Inl ForeignKeyFailed"
  by (simp_all add: engine_defs example_defs)

lemma released:
  "rows (store_after schema e (scenario @ [release_hold]) Held_funds) =
     [\<lparr>rid = 1, vals = [(''account_id'', VInt 1), (''card_account_id'', VInt 2),
         (''amount'', VReal 50), (''status'', VText ''released''),
         (''created_at'', VText ''2026-01-02 09:00:00''),
         (''updated_at'', VText ''2026-01-02 09:00:00'')]\<rparr>]"
  by (simp add: engine_defs example_defs)

lemma released_transfer_log:
  "rows (store_after schema e (scenario @ [release_hold]) Transfer_log) =
     [\<lparr>rid = 1, vals = [(''held_fund_id'', VInt 1), (''from_account_id'', VInt 1),
         (''to_account_id'', VInt 2), (''amount'', VReal 50), (''status'', VText ''pending''),
         (''plaid_transfer_id'', VNull), (''initiated_at'', VText ''2026-01-02 09:00:05''),
         (''completed_at'', VNull)]\<rparr>]"
  by (simp add: engine_defs example_defs)

section \<open>What the constraints say about a row\<close>

lemma rows_ok_row:
  assumes "rows_ok cat st" and "r \<in> set (rows (st t))"
  shows "list_all (col_ok r) (cat t)"
  using assms by (simp add: rows_ok_def list_all_iff)

lemma held_funds_row:
  assumes "list_all (col_ok r) (schema Held_funds)"
  shows "cell r ''status'' \<in> set held_statuses" "cell r ''amount'' \<noteq> VNull"
    "cell r ''account_id'' \<noteq> VNull" "cell r ''card_account_id'' \<noteq> VNull"
  using assms by (auto simp: col_ok_def col_def)

lemma transfer_log_row:
  assumes "list_all (col_ok r) (schema Transfer_log)"
  shows "cell r ''status'' \<in> set transfer_statuses" "cell r ''amount'' \<noteq> VNull"
    "cell r ''held_fund_id'' \<noteq> VNull" "cell r ''from_account_id'' \<noteq> VNull"
    "cell r ''to_account_id'' \<noteq> VNull"
  using assms by (auto simp: col_ok_def col_def)

lemma fk_ok_reference:
  assumes "fk_ok cat st t r" and "c \<in> set (cat t)" and "refs c = Some p"
    and "cell r (cname c) \<noteq> VNull"
  shows "\<exists>x\<in>set (rows (st p)). cell r (cname c) = VInt (rid x)"
proof -
  from assms(1,2) have "fk_col_ok st r c" by (simp add: fk_ok_iff)
  with assms(3,4) show ?thesis by (auto simp: fk_col_ok_iff rids_def)
qed



section \<open>When an insert into the transfer log is accepted\<close>






section \<open>Linking an account a second time\<close>








section \<open>The claims\<close>

text \<open>
  C1. The status columns are closed sets at the storage boundary. After any history of
  statements on the fresh database every \<^verbatim>\<open>held_funds\<close> row has a status among held,
  transferred, released and every \<^verbatim>\<open>transfer_log\<close> row one among pending, posted, failed,
  cancelled. And from any store whose rows meet the constraints of their tables, a single
  statement leaves only such rows in the two tables: a write that would leave a row with
  any other status (or none) persists nothing.
\<close>

theorem status_closed:
  "(\<forall>r\<in>set (rows (store_after schema e ws Held_funds)). cell r ''status'' \<in> set held_statuses) \<and>
   (\<forall>r\<in>set (rows (store_after schema e ws Transfer_log)). cell r ''status'' \<in> set transfer_statuses) \<and>
   (rows_ok schema st \<longrightarrow>
      (\<forall>r\<in>set (rows (exec_write schema e w st Held_funds)). cell r ''status'' \<in> set held_statuses)) \<and>
   (rows_ok schema st \<longrightarrow>
      (\<forall>r\<in>set (rows (exec_write schema e w st Transfer_log)). cell r ''status'' \<in> set transfer_statuses))"
proof (intro conjI impI ballI)
  fix r assume "r \<in> set (rows (store_after schema e ws Held_funds))"
  with store_after_rows_ok have "list_all (col_ok r) (schema Held_funds)" by (rule rows_ok_row)
  then show "cell r ''status'' \<in> set held_statuses" by (rule held_funds_row)
next
  fix r assume "r \<in> set (rows (store_after schema e ws Transfer_log))"
  with store_after_rows_ok have "list_all (col_ok r) (schema Transfer_log)" by (rule rows_ok_row)
  then show "cell r ''status'' \<in> set transfer_statuses" by (rule transfer_log_row)
next
  fix r assume "rows_ok schema st" and r: "r \<in> set (rows (exec_write schema e w st Held_funds))"
  then have "rows_ok schema (exec_write schema e w st)" by (simp add: exec_write_rows_ok)
  then have "list_all (col_ok r) (schema Held_funds)" using r by (rule rows_ok_row)
  then show "cell r ''status'' \<in> set held_statuses" by (rule held_funds_row)
next
  fix r assume "rows_ok schema st" and r: "r \<in> set (rows (exec_write schema e w st Transfer_log))"
  then have "rows_ok schema (exec_write schema e w st)" by (simp add: exec_write_rows_ok)
  then have "list_all (col_ok r) (schema Transfer_log)" using r by (rule rows_ok_row)
  then show "cell r ''status'' \<in> set transfer_statuses" by (rule transfer_log_row)
qed

theorem status_closed_witness:
  "\<forall>e. hd (rows (store_after schema e scenario Held_funds)) \<in> set (rows (store_after schema e scenario Held_funds)) \<and>
     cell (hd (rows (store_after schema e scenario Held_funds))) ''status'' \<in> set held_statuses \<and>
     hd (rows (store_after schema e scenario Transfer_log)) \<in> set (rows (store_after schema e scenario Transfer_log)) \<and>
     cell (hd (rows (store_after schema e scenario Transfer_log))) ''status'' \<in> set transfer_statuses \<and>
     rows_ok schema (store_after schema e scenario) \<and>
     hd (rows (exec_write schema e release_hold (store_after schema e scenario) Held_funds))
       \<in> set (rows (exec_write schema e release_hold (store_after schema e scenario) Held_funds)) \<and>
     cell (hd (rows (exec_write schema e release_hold (store_after schema e scenario) Held_funds))) ''status''
       = VText ''released'' \<and>
     cell (hd (rows (exec_write schema e release_hold (store_after schema e scenario) Held_funds))) ''status''
       \<in> set held_statuses \<and>
     hd (rows (exec_write schema e release_hold (store_after schema e scenario) Transfer_log))
       \<in> set (rows (exec_write schema e release_hold (store_after schema e scenario) Transfer_log)) \<and>
     cell (hd (rows (exec_write schema e release_hold (store_after schema e scenario) Transfer_log))) ''status''
       \<in> set transfer_statuses"
proof
  fix e
  let ?st = "store_after schema e scenario"
  have h: "hd (rows (?st Held_funds)) \<in> set (rows (?st Held_funds))"
    by (simp add: scenario_held_funds)
  have t: "hd (rows (?st Transfer_log)) \<in> set (rows (?st Transfer_log))"
    by (simp add: scenario_transfer_log)
  have ok: "rows_ok schema ?st" by (rule store_after_rows_ok)
  have ex: "exec_write schema e release_hold ?st = store_after schema e (scenario @ [release_hold])"
    by (simp add: store_after_def)
  have h': "hd (rows (exec_write schema e release_hold ?st Held_funds))
       \<in> set (rows (exec_write schema e release_hold ?st Held_funds))"
    and v: "cell (hd (rows (exec_write schema e release_hold ?st Held_funds))) ''status'' = VText ''released''"
    by (simp_all add: ex released cell_def)
  have t': "hd (rows (exec_write schema e release_hold ?st Transfer_log))
       \<in> set (rows (exec_write schema e release_hold ?st Transfer_log))"
    by (simp add: ex released_transfer_log)
  from status_closed [of e scenario ?st release_hold] h t ok h' v t'
  show "hd (rows (?st Held_funds)) \<in> set (rows (?st Held_funds)) \<and>
     cell (hd (rows (?st Held_funds))) ''status'' \<in> set held_statuses \<and>
     hd (rows (?st Transfer_log)) \<in> set (rows (?st Transfer_log)) \<and>
     cell (hd (rows (?st Transfer_log))) ''status'' \<in> set transfer_statuses \<and>
     rows_ok schema ?st \<and>
     hd (rows (exec_write schema e release_hold ?st Held_funds))
       \<in> set (rows (exec_write schema e release_hold ?st Held_funds)) \<and>
     cell (hd (rows (exec_write schema e release_hold ?st Held_funds))) ''status''
       = VText ''released'' \<and>
     cell (hd (rows (exec_write schema e release_hold ?st Held_funds))) ''status''
       \<in> set held_statuses \<and>
     hd (rows (exec_write schema e release_hold ?st Transfer_log))
       \<in> set (rows (exec_write schema e release_hold ?st Transfer_log)) \<and>
     cell (hd (rows (exec_write schema e release_hold ?st Transfer_log))) ''status''
       \<in> set transfer_statuses"
    by blast
qed




text \<open>
  C3 (as stated). Every persisted hold has a positive amount and two different accounts,
  and the store rejects any other: refuted. A hold of \<open>-5\<close> from account 1 to account 1
  is accepted and persisted.
\<close>

theorem held_fund_unchecked_counterexample:
  "\<forall>e. rows (store_after schema e [link_a, hold_self] Held_funds) =
     [\<lparr>rid = 1, vals = [(''account_id'', VInt 1), (''card_account_id'', VInt 1),
         (''amount'', VReal (- 5)), (''status'', VText ''held''),
         (''created_at'', VText ''2026-01-02 09:00:00''),
         (''updated_at'', VText ''2026-01-02 09:00:00'')]\<rparr>] \<and>
   \<not> list_all hold_valid (rows (store_after schema e [link_a, hold_self] Held_funds))"
  by (simp add: engine_defs example_defs hold_valid_def)

text \<open>
  C3 (amended). What the store does enforce on the three columns is NOT NULL: after any
  history of statements every \<^verbatim>\<open>held_funds\<close> row has a non-null amount, a non-null
  \<^verbatim>\<open>account_id\<close> and a non-null \<^verbatim>\<open>card_account_id\<close>. The sign of the amount and the
  distinctness of the two accounts are not checked.
\<close>

theorem held_fund_columns_not_null:
  "\<forall>r\<in>set (rows (store_after schema e ws Held_funds)).
     cell r ''amount'' \<noteq> VNull \<and> cell r ''account_id'' \<noteq> VNull \<and> cell r ''card_account_id'' \<noteq> VNull"
proof
  fix r assume "r \<in> set (rows (store_after schema e ws Held_funds))"
  with store_after_rows_ok have "list_all (col_ok r) (schema Held_funds)" by (rule rows_ok_row)
  then show "cell r ''amount'' \<noteq> VNull \<and> cell r ''account_id'' \<noteq> VNull \<and> cell r ''card_account_id'' \<noteq> VNull"
    by (simp add: held_funds_row)
qed

theorem held_fund_columns_not_null_witness:
  "\<forall>e. hd (rows (store_after schema e [link_a, hold_self] Held_funds))
       \<in> set (rows (store_after schema e [link_a, hold_self] Held_funds)) \<and>
     cell (hd (rows (store_after schema e [link_a, hold_self] Held_funds))) ''amount'' \<noteq> VNull \<and>
     cell (hd (rows (store_after schema e [link_a, hold_self] Held_funds))) ''account_id'' \<noteq> VNull \<and>
     cell (hd (rows (store_after schema e [link_a, hold_self] Held_funds))) ''card_account_id'' \<noteq> VNull"
proof
  fix e
  have "hd (rows (store_after schema e [link_a, hold_self] Held_funds))
      \<in> set (rows (store_after schema e [link_a, hold_self] Held_funds))"
    by (simp add: engine_defs example_defs)
  with held_fund_columns_not_null [of e "[link_a, hold_self]"]
  show "hd (rows (store_after schema e [link_a, hold_self] Held_funds))
       \<in> set (rows (store_after schema e [link_a, hold_self] Held_funds)) \<and>
     cell (hd (rows (store_after schema e [link_a, hold_self] Held_funds))) ''amount'' \<noteq> VNull \<and>
     cell (hd (rows (store_after schema e [link_a, hold_self] Held_funds))) ''account_id'' \<noteq> VNull \<and>
     cell (hd (rows (store_after schema e [link_a, hold_self] Held_funds))) ''card_account_id'' \<noteq> VNull"
    by blast
qed

text \<open>
  C5 (as stated). No two attempts record the same non-null gateway transfer id: refuted.
  The same attempt with \<^verbatim>\<open>plaid_transfer_id = 'T1'\<close> is accepted twice.
\<close>

theorem duplicate_transfer_id_counterexample:
  "\<forall>e. transfer_ids (store_after schema e [link_a, link_b, hold_ab, attempt_t1, attempt_t1]) =
       [VText ''T1'', VText ''T1''] \<and>
     \<not> distinct (transfer_ids (store_after schema e [link_a, link_b, hold_ab, attempt_t1, attempt_t1]))"
  by (simp add: engine_defs example_defs transfer_ids_def)

text \<open>
  C5 (amended). What is unique across \<^verbatim>\<open>transfer_log\<close> is the primary key: after any
  history of statements no two rows share an \<^verbatim>\<open>id\<close>. \<^verbatim>\<open>plaid_transfer_id\<close> carries no
  uniqueness constraint.
\<close>

theorem transfer_log_ids_unique:
  "distinct (rids (store_after schema e ws Transfer_log))"
  using store_after_ids_distinct [of schema e ws] by (simp add: ids_distinct_def)

theorem transfer_log_ids_unique_witness:
  "\<forall>e. rids (store_after schema e [link_a, link_b, hold_ab, attempt_t1, attempt_t1] Transfer_log) = [1, 2] \<and>
     distinct (rids (store_after schema e [link_a, link_b, hold_ab, attempt_t1, attempt_t1] Transfer_log))"
proof
  fix e
  have "rids (store_after schema e [link_a, link_b, hold_ab, attempt_t1, attempt_t1] Transfer_log) = [1, 2]"
    by (simp add: engine_defs example_defs)
  with transfer_log_ids_unique [of e "[link_a, link_b, hold_ab, attempt_t1, attempt_t1]"]
  show "rids (store_after schema e [link_a, link_b, hold_ab, attempt_t1, attempt_t1] Transfer_log) = [1, 2] \<and>
     distinct (rids (store_after schema e [link_a, link_b, hold_ab, attempt_t1, attempt_t1] Transfer_log))"
    by blast
qed







text \<open>
  C10. Referential integrity. After any history of statements every \<^verbatim>\<open>held_funds\<close> row
  references two existing accounts, and every \<^verbatim>\<open>transfer_log\<close> row an existing held fund
  and two existing accounts. The history ranges over all statements, accepted or refused:
  inserts and updates of referencing rows, and deletes and rowid updates of referenced
  ones.
\<close>

theorem references_exist:
  "(\<forall>r\<in>set (rows (store_after schema e ws Held_funds)).
      (\<exists>a\<in>set (rows (store_after schema e ws Accounts)). cell r ''account_id'' = VInt (rid a)) \<and>
      (\<exists>b\<in>set (rows (store_after schema e ws Accounts)). cell r ''card_account_id'' = VInt (rid b))) \<and>
   (\<forall>r\<in>set (rows (store_after schema e ws Transfer_log)).
      (\<exists>h\<in>set (rows (store_after schema e ws Held_funds)). cell r ''held_fund_id'' = VInt (rid h)) \<and>
      (\<exists>a\<in>set (rows (store_after schema e ws Accounts)). cell r ''from_account_id'' = VInt (rid a)) \<and>
      (\<exists>b\<in>set (rows (store_after schema e ws Accounts)). cell r ''to_account_id'' = VInt (rid b)))"
proof (intro conjI ballI)
  let ?st = "store_after schema e ws"
  note fkc = store_after_fk_consistent [OF no_self_ref_schema, of e ws]
  {
    fix r assume r: "r \<in> set (rows (?st Held_funds))"
    with store_after_rows_ok have ok: "list_all (col_ok r) (schema Held_funds)" by (rule rows_ok_row)
    from r fkc have fk: "fk_ok schema ?st Held_funds r" by (simp add: fk_consistent_def)
    show "\<exists>a\<in>set (rows (?st Accounts)). cell r ''account_id'' = VInt (rid a)"
      using fk_ok_reference [OF fk, of "(col ''account_id'' IntegerAff)\<lparr>notnull := True, refs := Some Accounts\<rparr>" Accounts]
        held_funds_row(3) [OF ok]
      by (simp add: col_def)
    show "\<exists>b\<in>set (rows (?st Accounts)). cell r ''card_account_id'' = VInt (rid b)"
      using fk_ok_reference [OF fk, of "(col ''card_account_id'' IntegerAff)\<lparr>notnull := True, refs := Some Accounts\<rparr>" Accounts]
        held_funds_row(4) [OF ok]
      by (simp add: col_def)
  }
  {
    fix r assume r: "r \<in> set (rows (?st Transfer_log))"
    with store_after_rows_ok have ok: "list_all (col_ok r) (schema Transfer_log)" by (rule rows_ok_row)
    from r fkc have fk: "fk_ok schema ?st Transfer_log r" by (simp add: fk_consistent_def)
    show "\<exists>h\<in>set (rows (?st Held_funds)). cell r ''held_fund_id'' = VInt (rid h)"
      using fk_ok_reference [OF fk, of "(col ''held_fund_id'' IntegerAff)\<lparr>notnull := True, refs := Some Held_funds\<rparr>" Held_funds]
        transfer_log_row(3) [OF ok]
      by (simp add: col_def)
    show "\<exists>a\<in>set (rows (?st Accounts)). cell r ''from_account_id'' = VInt (rid a)"
      using fk_ok_reference [OF fk, of "(col ''from_account_id'' IntegerAff)\<lparr>notnull := True, refs := Some Accounts\<rparr>" Accounts]
        transfer_log_row(4) [OF ok]
      by (simp add: col_def)
    show "\<exists>b\<in>set (rows (?st Accounts)). cell r ''to_account_id'' = VInt (rid b)"
      using fk_ok_reference [OF fk, of "(col ''to_account_id'' IntegerAff)\<lparr>notnull := True, refs := Some Accounts\<rparr>" Accounts]
        transfer_log_row(5) [OF ok]
      by (simp add: col_def)
  }
qed

theorem references_exist_witness:
  "\<forall>e. apply_write schema e delete_a (store_after schema e scenario) = Inl ForeignKeyFailed \<and>
     apply_write schema e attempt_orphan (store_after schema e scenario) = Inl ForeignKeyFailed \<and>
     hd (rows (store_after schema e (scenario @ [delete_a, attempt_orphan]) Transfer_log))
       \<in> set (rows (store_after schema e (scenario @ [delete_a, attempt_orphan]) Transfer_log)) \<and>
     (\<exists>h\<in>set (rows (store_after schema e (scenario @ [delete_a, attempt_orphan]) Held_funds)).
        cell (hd (rows (store_after schema e (scenario @ [delete_a, attempt_orphan]) Transfer_log))) ''held_fund_id'' = VInt (rid h)) \<and>
     (\<exists>a\<in>set (rows (store_after schema e (scenario @ [delete_a, attempt_orphan]) Accounts)).
        cell (hd (rows (store_after schema e (scenario @ [delete_a, attempt_orphan]) Transfer_log))) ''from_account_id'' = VInt (rid a)) \<and>
     (\<exists>b\<in>set (rows (store_after schema e (scenario @ [delete_a, attempt_orphan]) Accounts)).
        cell (hd (rows (store_after schema e (scenario @ [delete_a, attempt_orphan]) Transfer_log))) ''to_account_id'' = VInt (rid b))"
proof
  fix e
  let ?st = "store_after schema e (scenario @ [delete_a, attempt_orphan])"
  have same: "?st = store_after schema e scenario"
    using rejected_writes [of e] by (simp add: store_after_def exec_write_def)
  have "hd (rows (?st Transfer_log)) \<in> set (rows (?st Transfer_log))"
    unfolding same by (simp add: scenario_transfer_log)
  with references_exist [of e "scenario @ [delete_a, attempt_orphan]"] rejected_writes [of e]
  show "apply_write schema e delete_a (store_after schema e scenario) = Inl ForeignKeyFailed \<and>
     apply_write schema e attempt_orphan (store_after schema e scenario) = Inl ForeignKeyFailed \<and>
     hd (rows (?st Transfer_log)) \<in> set (rows (?st Transfer_log)) \<and>
     (\<exists>h\<in>set (rows (?st Held_funds)).
        cell (hd (rows (?st Transfer_log))) ''held_fund_id'' = VInt (rid h)) \<and>
     (\<exists>a\<in>set (rows (?st Accounts)).
        cell (hd (rows (?st Transfer_log))) ''from_account_id'' = VInt (rid a)) \<and>
     (\<exists>b\<in>set (rows (?st Accounts)).
        cell (hd (rows (?st Transfer_log))) ''to_account_id'' = VInt (rid b))"
    by blast
qed

text \<open>
  C4. The access token is not stored. The script's INSERT names the column
  \<^verbatim>\<open>access_token\<close>, which the \<^verbatim>\<open>accounts\<close> table of \<^verbatim>\<open>db.js\<close> does not have, so
  \<^verbatim>\<open>db.prepare\<close> throws and \<^verbatim>\<open>handleExchange\<close> ends with that error before any row is
  written. Evaluated on the fresh database with one account to link.
\<close>

theorem link_exchange_cannot_prepare:
  "''access_token'' \<in> set link_columns \<and> ''access_token'' \<notin> set (map cname (schema Accounts)) \<and>
   handleExchange schema e (\<lambda>_. ''2026-01-01 10:00:00'') ''access-sandbox-1'' ''item-1'' [plaid_a] empty_store
     = Inl (NoSuchColumn ''access_token'')"
  by (simp add: handleExchange_def unknown_column_def link_columns_def resolve_accounts col_def)

text \<open>
  On the database that \<^verbatim>\<open>db.js\<close> creates the script fails in \<^verbatim>\<open>db.prepare\<close> on every
  input: whatever the token exchange and \<^verbatim>\<open>accountsGet\<close> returned and whatever the store
  holds.
\<close>

theorem handleExchange_never_prepares:
  "handleExchange schema e now access_token item_id accounts st = Inl (NoSuchColumn ''access_token'')"
  by (simp add: handleExchange_def unknown_column_def link_columns_def resolve_accounts)




end
